theory Spec2Isabelle
  imports Main "HOL-Library.Sublist"
begin

section \<open>The text patcher \<open>tmp_update_index.py\<close>\<close>

text \<open>
  The script reads one file, applies three calls of Python's \<open>str.replace\<close> with an
  empty replacement, writes the file back and prints a confirmation:
  \<^verbatim>\<open>
  path = Path('/home/ubuntu/Mean-Time/backend/src/index.ts')
  text = path.read_text()
  text = text.replace("import { startSepoliaWatcher } from './sepoliaWatcher.js'\n", "")
  text = text.replace("  const stopSepoliaWatcher = startSepoliaWatcher(ctx, store)\n", "")
  text = text.replace("    stopSepoliaWatcher()\n", "")
  path.write_text(text)
  print('updated index.ts')
  \<close>
  A file holds bytes, and text is a \<open>string\<close>, a list of characters of one byte each.
\<close>

subsection \<open>Python's \<open>str.replace\<close>\<close>

abbreviation LF :: char where "LF \<equiv> CHR 0x0A"
abbreviation CR :: char where "CR \<equiv> CHR 0x0D"

text \<open>
  \<open>s.replace(old, new)\<close> scans \<open>s\<close> from the left; at a position where \<open>old\<close>
  starts it emits \<open>new\<close> and continues after that occurrence (so the occurrences
  replaced never overlap), otherwise it keeps the character. With an empty \<open>old\<close>
  Python puts \<open>new\<close> before every character and at the end.
\<close>

function replace :: "'a list \<Rightarrow> 'a list \<Rightarrow> 'a list \<Rightarrow> 'a list" where
  "replace old new [] = (if old = [] then new else [])"
| "replace old new (c # cs) =
     (if old = [] then new @ c # replace old new cs
      else if prefix old (c # cs) then new @ replace old new (drop (length old) (c # cs))
      else c # replace old new cs)"
  by pat_completeness auto
termination
  by (relation "measure (\<lambda>(old, new, s). length s)") auto

subsection \<open>The three literal patterns and the transformation (lines 6 to 8)\<close>

definition pat_import :: string where
  "pat_import = ''import { startSepoliaWatcher } from './sepoliaWatcher.js'\<newline>''"

definition pat_const :: string where
  "pat_const = ''  const stopSepoliaWatcher = startSepoliaWatcher(ctx, store)\<newline>''"

definition pat_call :: string where
  "pat_call = ''    stopSepoliaWatcher()\<newline>''"

definition patterns :: "string list" where
  "patterns = [pat_import, pat_const, pat_call]"

text \<open>The variable \<open>text\<close> is reassigned three times, in this order.\<close>

definition transform :: "string \<Rightarrow> string" where
  "transform text0 =
     (let text1 = replace pat_import [] text0;
          text2 = replace pat_const [] text1;
          text3 = replace pat_call [] text2
      in text3)"

subsection \<open>Files, errors and the script body\<close>

datatype error = FileNotFoundError | PermissionError | IsADirectoryError | UnicodeDecodeError

text \<open>A path names nothing, a directory, or a regular file with its bytes and its
  read and write permission for the running user. (Parent directories are not modelled:
  every absent path gives \<open>FileNotFoundError\<close>.)\<close>

datatype node = Dir | File (content: string) (readable: bool) (writable: bool)

datatype effect = Wrote string string | Printed string

datatype codec = ASCII | UTF8

text \<open>
  The process sees the file system, its arguments and its environment. How the C library
  resolves the locale variables to an encoding is the host's business, so the world carries
  it as a function of the environment.
\<close>

record world =
  fs :: "string \<rightharpoonup> node"
  effects :: "effect list"
  argv :: "string list"
  environ :: "string \<rightharpoonup> string"
  locale_encoding :: "(string \<rightharpoonup> string) \<Rightarrow> codec"

text \<open>
  The script passes no encoding, so \<open>read_text\<close> and \<open>write_text\<close> use
  \<open>locale.getencoding()\<close>: UTF-8 when \<open>PYTHONUTF8=1\<close> switches UTF-8 mode on,
  and otherwise the encoding the host derives from the environment.
\<close>

definition getencoding :: "world \<Rightarrow> codec" where
  "getencoding w =
     (if environ w ''PYTHONUTF8'' = Some ''1'' then UTF8 else locale_encoding w (environ w))"

definition byte :: "char \<Rightarrow> nat" where
  "byte c = of_char c"

definition continuation :: "nat \<Rightarrow> bool" where
  "continuation b \<longleftrightarrow> 128 \<le> b \<and> b \<le> 191"

text \<open>Well-formed UTF-8, as the strict decoder accepts it: no overlong forms, no
  surrogates, nothing above U+10FFFF.\<close>

fun utf8_ok :: "nat list \<Rightarrow> bool" where
  "utf8_ok [] = True"
| "utf8_ok (b # bs) =
     (if b < 128 then utf8_ok bs
      else if 194 \<le> b \<and> b \<le> 223 then
        (case bs of c1 # r \<Rightarrow> continuation c1 \<and> utf8_ok r | _ \<Rightarrow> False)
      else if 224 \<le> b \<and> b \<le> 239 then
        (case bs of
           c1 # c2 # r \<Rightarrow>
             (if b = 224 then 160 \<le> c1 \<and> c1 \<le> 191
              else if b = 237 then 128 \<le> c1 \<and> c1 \<le> 159
              else continuation c1)
             \<and> continuation c2 \<and> utf8_ok r
         | _ \<Rightarrow> False)
      else if 240 \<le> b \<and> b \<le> 244 then
        (case bs of
           c1 # c2 # c3 # r \<Rightarrow>
             (if b = 240 then 144 \<le> c1 \<and> c1 \<le> 191
              else if b = 244 then 128 \<le> c1 \<and> c1 \<le> 143
              else continuation c1)
             \<and> continuation c2 \<and> continuation c3 \<and> utf8_ok r
         | _ \<Rightarrow> False)
      else False)"

definition decodable :: "codec \<Rightarrow> string \<Rightarrow> bool" where
  "decodable enc bs =
     (case enc of
        ASCII \<Rightarrow> list_all (\<lambda>b. b < 128) (map byte bs)
      | UTF8 \<Rightarrow> utf8_ok (map byte bs))"

text \<open>
  Decoding fails on bytes the encoding does not accept. The decoded text is represented by
  the bytes it came from: in ASCII and in UTF-8 an ASCII pattern occurs in the text exactly
  where its bytes occur in the file, and encoding the text again gives the bytes back.
\<close>

definition decode :: "codec \<Rightarrow> string \<Rightarrow> error + string" where
  "decode enc bs = (if decodable enc bs then Inr bs else Inl UnicodeDecodeError)"

text \<open>
  \<open>Path.read_text()\<close> opens the file in text mode with the default \<open>newline=None\<close>:
  on reading, \<open>\r\n\<close> and a lone \<open>\r\<close> both arrive as \<open>\n\<close>.
\<close>

fun universal_newlines :: "string \<Rightarrow> string" where
  "universal_newlines [] = []"
| "universal_newlines (c # cs) =
     (if c = CR then
        (case cs of
           [] \<Rightarrow> [LF]
         | d # ds \<Rightarrow> if d = LF then LF # universal_newlines ds else LF # universal_newlines cs)
      else c # universal_newlines cs)"

text \<open>The open fails first, then the decoding; the newlines of the decoded text are
  translated last.\<close>

definition read_text :: "world \<Rightarrow> string \<Rightarrow> error + string" where
  "read_text w p =
     (case fs w p of
        None \<Rightarrow> Inl FileNotFoundError
      | Some Dir \<Rightarrow> Inl IsADirectoryError
      | Some (File c r wr) \<Rightarrow>
          if r then
            (case decode (getencoding w) c of
               Inl e \<Rightarrow> Inl e
             | Inr t \<Rightarrow> Inr (universal_newlines t))
          else Inl PermissionError)"

text \<open>
  \<open>Path.write_text(data)\<close> opens with mode \<open>w\<close>: the open fails on a directory or
  without write permission, before the file is truncated. The path is a POSIX one, where
  \<open>os.linesep\<close> is \<open>\n\<close> and writing translates nothing. A missing file would be
  created (the script never gets there: its read fails first).
\<close>

definition write_text :: "world \<Rightarrow> string \<Rightarrow> string \<Rightarrow> error + world" where
  "write_text w p data =
     (case fs w p of
        None \<Rightarrow> Inr (w\<lparr>fs := (fs w)(p \<mapsto> File data True True), effects := effects w @ [Wrote p data]\<rparr>)
      | Some Dir \<Rightarrow> Inl IsADirectoryError
      | Some (File c r wr) \<Rightarrow>
          if wr then Inr (w\<lparr>fs := (fs w)(p \<mapsto> File data r wr), effects := effects w @ [Wrote p data]\<rparr>)
          else Inl PermissionError)"

definition print :: "world \<Rightarrow> string \<Rightarrow> world" where
  "print w s = w\<lparr>effects := effects w @ [Printed (s @ [LF])]\<rparr>"

fun stdout_of :: "effect list \<Rightarrow> string" where
  "stdout_of [] = []"
| "stdout_of (Printed s # es) = s @ stdout_of es"
| "stdout_of (Wrote p d # es) = stdout_of es"

definition path :: string where
  "path = ''/home/ubuntu/Mean-Time/backend/src/index.ts''"

text \<open>The module body: an exception ends the run where it is raised, and nothing
  catches it. The result is the world the run leaves and the exception, if any.\<close>

definition main :: "world \<Rightarrow> world \<times> error option" where
  "main w =
     (case read_text w path of
        Inl e \<Rightarrow> (w, Some e)
      | Inr text0 \<Rightarrow>
          (case write_text w path (transform text0) of
             Inl e \<Rightarrow> (w, Some e)
           | Inr w1 \<Rightarrow> (print w1 ''updated index.ts'', None)))"

subsection \<open>Notions the properties are stated with\<close>

text \<open>The number of positions of \<open>s\<close> at which \<open>p\<close> starts.\<close>

fun count_occ :: "'a list \<Rightarrow> 'a list \<Rightarrow> nat" where
  "count_occ p [] = (if p = [] then 1 else 0)"
| "count_occ p (c # cs) = (if prefix p (c # cs) then 1 else 0) + count_occ p cs"

text \<open>The lines of a text, each with its terminating \<open>\n\<close>; the last one may lack it.\<close>

fun lines_of :: "string \<Rightarrow> string list" where
  "lines_of [] = []"
| "lines_of (c # cs) =
     (if c = LF then [c] # lines_of cs
      else (case lines_of cs of [] \<Rightarrow> [[c]] | l # ls \<Rightarrow> (c # l) # ls))"

text \<open>Every line that contains the pattern is the pattern: it occurs as whole lines only.\<close>

definition whole_line_only :: "string \<Rightarrow> string \<Rightarrow> bool" where
  "whole_line_only p s \<longleftrightarrow> (\<forall>l \<in> set (lines_of s). sublist p l \<longrightarrow> l = p)"

text \<open>A pattern that is one line: no \<open>\n\<close> but the one that ends it.\<close>

definition line_pattern :: "string \<Rightarrow> bool" where
  "line_pattern p \<longleftrightarrow> p \<noteq> [] \<and> last p = LF \<and> LF \<notin> set (butlast p)"

text \<open>
  The spec's wording of one step, "remove every occurrence of the literal line": every
  character that lies inside some occurrence of \<open>p\<close> is deleted, every other character is
  kept, in order. The counter is the number of coming characters that an occurrence
  already seen still covers.
\<close>

fun delete_covered :: "'a list \<Rightarrow> nat \<Rightarrow> 'a list \<Rightarrow> 'a list" where
  "delete_covered p k [] = []"
| "delete_covered p k (c # cs) =
     (let k' = (if prefix p (c # cs) then max k (length p) else k)
      in if 0 < k' then delete_covered p (k' - 1) cs else c # delete_covered p 0 cs)"

definition remove_every_occurrence :: "'a list \<Rightarrow> 'a list \<Rightarrow> 'a list" where
  "remove_every_occurrence p s = delete_covered p 0 s"

text \<open>A line without a trailing occurrence of \<open>p\<close> is kept; otherwise the occurrence is cut off.\<close>

definition strip_suffix :: "'a list \<Rightarrow> 'a list \<Rightarrow> 'a list" where
  "strip_suffix p l = (if suffix p l then take (length l - length p) l else l)"

subsection \<open>Concrete inputs\<close>

text \<open>The six-line file of the spec's scenario, and the output the spec expects.\<close>

definition scenario_input :: string where
  "scenario_input =
     ''import { startSepoliaWatcher } from './sepoliaWatcher.js'\<newline>'' @
     ''function main() {\<newline>'' @
     ''  const stopSepoliaWatcher = startSepoliaWatcher(ctx, store)\<newline>'' @
     ''  doWork()\<newline>'' @
     ''  stopSepoliaWatcher()\<newline>'' @
     ''}\<newline>''"

definition scenario_expected :: string where
  "scenario_expected =
     ''function main() {\<newline>'' @
     ''  doWork()\<newline>'' @
     ''}\<newline>''"

text \<open>The same file with the call one level deeper, as the third pattern expects it.\<close>

definition scenario_nested :: string where
  "scenario_nested =
     ''import { startSepoliaWatcher } from './sepoliaWatcher.js'\<newline>'' @
     ''function main() {\<newline>'' @
     ''  const stopSepoliaWatcher = startSepoliaWatcher(ctx, store)\<newline>'' @
     ''  doWork()\<newline>'' @
     ''    stopSepoliaWatcher()\<newline>'' @
     ''}\<newline>''"

text \<open>What the script leaves of the scenario's file.\<close>

definition scenario_actual :: string where
  "scenario_actual =
     ''function main() {\<newline>'' @
     ''  doWork()\<newline>'' @
     ''  stopSepoliaWatcher()\<newline>'' @
     ''}\<newline>''"

text \<open>The import line with a second copy of itself inserted after its first three
  characters, alone and followed by the other two lines.\<close>

definition nested_import :: string where
  "nested_import =
     ''imp'' @
     ''import { startSepoliaWatcher } from './sepoliaWatcher.js'\<newline>'' @
     ''ort { startSepoliaWatcher } from './sepoliaWatcher.js'\<newline>''"

definition nested_import_once_each :: string where
  "nested_import_once_each =
     ''imp'' @
     ''import { startSepoliaWatcher } from './sepoliaWatcher.js'\<newline>'' @
     ''ort { startSepoliaWatcher } from './sepoliaWatcher.js'\<newline>'' @
     ''  const stopSepoliaWatcher = startSepoliaWatcher(ctx, store)\<newline>'' @
     ''    stopSepoliaWatcher()\<newline>''"

text \<open>The import line with the assignment line inserted in the middle of it.\<close>

definition split_import :: string where
  "split_import =
     ''import { startSepoliaWatcher } from './sepolia'' @
     ''  const stopSepoliaWatcher = startSepoliaWatcher(ctx, store)\<newline>'' @
     ''Watcher.js'\<newline>''"

definition no_match_input :: string where
  "no_match_input = ''function main() { doWork() }''"

text \<open>The import line terminated by \<open>\r\n\<close>, followed by \<open>x\<close>: none of the three
  patterns, which end in \<open>\n\<close> right after their last character, occurs in these bytes.\<close>

definition crlf_import :: string where
  "crlf_import =
     ''import { startSepoliaWatcher } from './sepoliaWatcher.js'' @ [CHR 0x27, CR, LF] @ ''x''"



text \<open>A Linux host with the C and the UTF-8 locales under CPython 3.7 or later: the
  encoding is UTF-8, except ASCII in the C locale that \<open>LC_ALL\<close> selects with UTF-8 mode
  switched off.\<close>

definition c_locale_host :: "(string \<rightharpoonup> string) \<Rightarrow> codec" where
  "c_locale_host env =
     (if env ''LC_ALL'' = Some ''C'' \<and> env ''PYTHONUTF8'' = Some ''0'' then ASCII else UTF8)"

definition world_with :: "node \<Rightarrow> world" where
  "world_with n = \<lparr>fs = [path \<mapsto> n], effects = [], argv = [], environ = Map.empty,
                    locale_encoding = c_locale_host\<rparr>"

definition empty_world :: world where
  "empty_world = \<lparr>fs = Map.empty, effects = [], argv = [], environ = Map.empty,
                   locale_encoding = c_locale_host\<rparr>"





section \<open>Properties of \<open>replace\<close>\<close>

subsection \<open>Absent patterns\<close>

lemma replace_absent: "old \<noteq> [] \<Longrightarrow> \<not> sublist old s \<Longrightarrow> replace old new s = s"
  by (induction s) (auto simp: sublist_Cons_right)

subsection \<open>One-line patterns and the lines of a text\<close>

lemma line_patternE:
  assumes "line_pattern p"
  obtains b where "p = b @ [LF]" and "LF \<notin> set b"
proof -
  from assms have "p = butlast p @ [LF]" and "LF \<notin> set (butlast p)"
    unfolding line_pattern_def by (metis append_butlast_last_id, simp)
  then show ?thesis using that by blast
qed

lemma first_newline_unique:
  "x \<notin> set a \<Longrightarrow> x \<notin> set b \<Longrightarrow> a @ x # r = b @ x # r' \<Longrightarrow> a = b"
proof (induction a arbitrary: b)
  case Nil
  then show ?case by (cases b) auto
next
  case (Cons c a)
  then show ?case by (cases b) auto
qed

lemma prefix_line_iff:
  assumes "LF \<notin> set b" and "LF \<notin> set a"
  shows "prefix (b @ [LF]) (a @ LF # rest) \<longleftrightarrow> b = a"
proof
  assume "prefix (b @ [LF]) (a @ LF # rest)"
  then obtain r where "a @ LF # rest = b @ LF # r"
    by (auto simp: prefix_def)
  with assms show "b = a"
    by (auto dest: first_newline_unique)
next
  assume "b = a"
  then show "prefix (b @ [LF]) (a @ LF # rest)" by simp
qed

lemma suffix_line_Cons:
  assumes "p \<noteq> c # l"
  shows "strip_suffix p (c # l) = c # strip_suffix p l"
proof (cases "suffix p l")
  case True
  then have "length p \<le> length l" by (rule suffix_length_le)
  then have "Suc (length l) - length p = Suc (length l - length p)" by simp
  with True show ?thesis by (simp add: strip_suffix_def suffix_Cons)
next
  case False
  with assms show ?thesis by (simp add: strip_suffix_def suffix_Cons)
qed

lemma replace_line:
  assumes "p = b @ [LF]" and "LF \<notin> set b" and "LF \<notin> set a"
  shows "replace p [] (a @ LF # rest) = strip_suffix p (a @ [LF]) @ replace p [] rest"
  using assms(3)
proof (induction a)
  case Nil
  show ?case
  proof (cases "b = []")
    case True
    with assms(1) show ?thesis by (simp add: strip_suffix_def)
  next
    case False
    then obtain x xs where "b = x # xs" by (cases b) auto
    with assms(1,2) have "\<not> prefix p (LF # rest)" and "\<not> suffix p [LF]" and "p \<noteq> []"
      by (auto simp: suffix_def Cons_eq_append_conv)
    then show ?thesis by (simp add: strip_suffix_def)
  qed
next
  case (Cons c a)
  then have nl: "LF \<notin> set (c # a)" and IH: "replace p [] (a @ LF # rest) = strip_suffix p (a @ [LF]) @ replace p [] rest"
    by simp_all
  have pne: "p \<noteq> []" using assms(1) by simp
  have pre: "prefix p ((c # a) @ LF # rest) \<longleftrightarrow> b = c # a"
    unfolding assms(1) using assms(2) nl by (rule prefix_line_iff)
  show ?case
  proof (cases "b = c # a")
    case True
    then have "p = (c # a) @ [LF]" using assms(1) by simp
    moreover from this have "drop (length p) ((c # a) @ LF # rest) = rest" by simp
    ultimately show ?thesis using pre True pne
      by (simp add: strip_suffix_def)
  next
    case False
    then have "p \<noteq> c # (a @ [LF])" using assms(1) by auto
    then have "strip_suffix p (c # (a @ [LF])) = c # strip_suffix p (a @ [LF])"
      by (rule suffix_line_Cons)
    with pre False pne IH show ?thesis by simp
  qed
qed

lemma replace_no_newline:
  assumes "line_pattern p" and "LF \<notin> set l"
  shows "replace p new l = l"
proof -
  from assms(1) obtain b where p: "p = b @ [LF]" by (rule line_patternE)
  have "\<not> sublist p l"
  proof
    assume "sublist p l"
    then have "set p \<subseteq> set l" by (rule set_mono_sublist)
    with p assms(2) show False by auto
  qed
  moreover have "p \<noteq> []" using p by simp
  ultimately show ?thesis by (rule replace_absent[rotated])
qed

lemma line_induct [case_names last_line line]:
  assumes last_line: "\<And>l. LF \<notin> set l \<Longrightarrow> P l"
    and line: "\<And>a rest. LF \<notin> set a \<Longrightarrow> P rest \<Longrightarrow> P (a @ LF # rest)"
  shows "P s"
proof (induction s rule: length_induct)
  case (1 s)
  show ?case
  proof (cases "LF \<in> set s")
    case False
    then show ?thesis by (rule last_line)
  next
    case True
    then obtain a rest where s: "s = a @ LF # rest" and a: "LF \<notin> set a"
      by (auto dest: split_list_first)
    then have "length rest < length s" by simp
    with 1 have "P rest" by blast
    with a show ?thesis unfolding s by (rule line)
  qed
qed

lemma lines_of_no_newline: "LF \<notin> set l \<Longrightarrow> lines_of l = (if l = [] then [] else [l])"
  by (induction l) (auto split: list.splits)

lemma lines_of_line: "LF \<notin> set a \<Longrightarrow> lines_of (a @ LF # rest) = (a @ [LF]) # lines_of rest"
  by (induction a) (auto split: list.splits)

lemma concat_lines_of: "concat (lines_of s) = s"
  by (induction s) (auto split: list.splits)

lemma replace_lines:
  assumes "line_pattern p"
  shows "replace p [] s = concat (map (strip_suffix p) (lines_of s))"
proof -
  from assms obtain b where p: "p = b @ [LF]" and b: "LF \<notin> set b" by (rule line_patternE)
  show ?thesis
  proof (induction s rule: line_induct)
    case (last_line l)
    have "\<not> suffix p l"
    proof
      assume "suffix p l"
      then have "set p \<subseteq> set l" by (rule set_mono_suffix)
      with p last_line show False by auto
    qed
    with last_line assms show ?case
      by (simp add: replace_no_newline lines_of_no_newline strip_suffix_def)
  next
    case (line a rest)
    then show ?case
      by (simp add: replace_line[OF p b] lines_of_line)
  qed
qed

lemma sublist_iff_count_occ: "sublist p s \<longleftrightarrow> 0 < count_occ p s"
  by (induction s) (auto simp: sublist_Cons_right)

lemma count_occ_line:
  assumes "p = b @ [LF]" and "LF \<notin> set b" and "LF \<notin> set a"
  shows "count_occ p (a @ LF # rest) = (if suffix p (a @ [LF]) then 1 else 0) + count_occ p rest"
  using assms(3)
proof (induction a)
  case Nil
  have "prefix p (LF # rest) \<longleftrightarrow> b = []"
    using prefix_line_iff[OF assms(2), of "[]" rest] assms(1) by simp
  moreover have "suffix p [LF] \<longleftrightarrow> b = []"
    using assms(1) by (auto simp: suffix_def Cons_eq_append_conv)
  ultimately show ?case by simp
next
  case (Cons c a)
  then have nl: "LF \<notin> set (c # a)"
    and IH: "count_occ p (a @ LF # rest) = (if suffix p (a @ [LF]) then 1 else 0) + count_occ p rest"
    by simp_all
  have pre: "prefix p ((c # a) @ LF # rest) \<longleftrightarrow> b = c # a"
    unfolding assms(1) using assms(2) nl by (rule prefix_line_iff)
  have suf: "suffix p ((c # a) @ [LF]) \<longleftrightarrow> b = c # a \<or> suffix p (a @ [LF])"
    using assms(1) by (auto simp: suffix_Cons)
  have excl: "b = c # a \<Longrightarrow> \<not> suffix p (a @ [LF])"
    using assms(1) by (auto dest: suffix_length_le)
  show ?case using pre suf excl IH by auto
qed

lemma count_occ_lines:
  assumes "line_pattern p"
  shows "count_occ p s = length (filter (suffix p) (lines_of s))"
proof -
  from assms obtain b where p: "p = b @ [LF]" and b: "LF \<notin> set b" by (rule line_patternE)
  show ?thesis
  proof (induction s rule: line_induct)
    case (last_line l)
    have "\<not> sublist p l"
    proof
      assume "sublist p l"
      then have "set p \<subseteq> set l" by (rule set_mono_sublist)
      with p last_line show False by auto
    qed
    then have "count_occ p l = 0" and "\<not> suffix p l"
      by (auto simp: sublist_iff_count_occ dest: suffix_imp_sublist)
    with last_line show ?case by (simp add: lines_of_no_newline)
  next
    case (line a rest)
    then show ?case
      by (simp add: count_occ_line[OF p b] lines_of_line)
  qed
qed

lemma whole_line_only_line:
  assumes "LF \<notin> set a"
  shows "whole_line_only p (a @ LF # rest) \<longleftrightarrow>
         (sublist p (a @ [LF]) \<longrightarrow> a @ [LF] = p) \<and> whole_line_only p rest"
  using assms by (simp add: whole_line_only_def lines_of_line)

lemma lines_of_replace_whole:
  assumes "line_pattern p" and "whole_line_only p s"
  shows "lines_of (replace p [] s) = filter (\<lambda>l. l \<noteq> p) (lines_of s)"
proof -
  from assms(1) obtain b where p: "p = b @ [LF]" and b: "LF \<notin> set b" by (rule line_patternE)
  show ?thesis using assms(2)
  proof (induction s rule: line_induct)
    case (last_line l)
    have "l \<noteq> p" using p last_line by auto
    with last_line assms(1) show ?case
      by (simp add: replace_no_newline lines_of_no_newline)
  next
    case (line a rest)
    then have w: "sublist p (a @ [LF]) \<longrightarrow> a @ [LF] = p" and IH: "lines_of (replace p [] rest) = filter (\<lambda>l. l \<noteq> p) (lines_of rest)"
      by (simp_all add: whole_line_only_line)
    show ?case
    proof (cases "a @ [LF] = p")
      case True
      then have "strip_suffix p (a @ [LF]) = []" by (simp add: strip_suffix_def)
      with True IH line(1) show ?thesis
        by (simp add: replace_line[OF p b] lines_of_line)
    next
      case False
      with w have "\<not> suffix p (a @ [LF])" by (auto dest: suffix_imp_sublist)
      then have "strip_suffix p (a @ [LF]) = a @ [LF]"
        unfolding strip_suffix_def by (simp only: if_False)
      with False IH line(1) show ?thesis
        by (simp add: replace_line[OF p b] lines_of_line)
    qed
  qed
qed

subsection \<open>The scan removes every occurrence of a one-line pattern\<close>

lemma delete_covered_skip:
  assumes "LF \<notin> set b"
  shows "LF \<notin> set a \<Longrightarrow> length a < length b \<Longrightarrow>
    delete_covered (b @ [LF]) (Suc (length a)) (a @ LF # rest) = delete_covered (b @ [LF]) 0 rest"
proof (induction a)
  case Nil
  then have "\<not> prefix (b @ [LF]) (LF # rest)"
    using prefix_line_iff[OF assms, of "[]" rest] by auto
  then show ?case by simp
next
  case (Cons c a)
  then have "\<not> prefix (b @ [LF]) ((c # a) @ LF # rest)"
    using prefix_line_iff[OF assms, of "c # a" rest] by auto
  with Cons show ?case by simp
qed

lemma delete_covered_replace:
  assumes "line_pattern p"
  shows "delete_covered p 0 s = replace p [] s"
proof -
  from assms obtain b where p: "p = b @ [LF]" and b: "LF \<notin> set b" by (rule line_patternE)
  have pne: "p \<noteq> []" using p by simp
  show ?thesis
  proof (induction s rule: length_induct)
    case (1 s)
    show ?case
    proof (cases s)
      case Nil
      with pne show ?thesis by simp
    next
      case (Cons c cs)
      show ?thesis
      proof (cases "prefix p (c # cs)")
        case False
        moreover have "delete_covered p 0 cs = replace p [] cs"
          using 1 Cons by simp
        ultimately show ?thesis using Cons pne by simp
      next
        case True
        then obtain rest where s: "c # cs = b @ LF # rest"
          using p by (auto simp: prefix_def)
        have dr: "drop (length p) (c # cs) = rest" using s p by simp
        have "length rest < length s" using s Cons by (metis length_append length_Cons add_Suc_right less_add_Suc2 not_less_eq less_Suc_eq trans_less_add2)
        with 1 have IH: "delete_covered p 0 rest = replace p [] rest" by blast
        have "delete_covered p 0 (c # cs) = delete_covered p 0 rest"
        proof (cases b)
          case Nil
          with s p True show ?thesis by simp
        next
          case (Cons x b')
          with s have cs: "cs = b' @ LF # rest" and "c = x" by simp_all
          have "delete_covered p 0 (c # cs) = delete_covered p (length p - 1) cs"
            using True pne by (simp add: Let_def)
          also have "length p - 1 = Suc (length b')" using p Cons by simp
          also have "delete_covered p (Suc (length b')) cs = delete_covered p 0 rest"
            unfolding cs p using b Cons by (intro delete_covered_skip) auto
          finally show ?thesis .
        qed
        with True pne dr IH Cons show ?thesis by simp
      qed
    qed
  qed
qed

section \<open>Properties of the three patterns and of \<open>transform\<close>\<close>

lemmas pat_defs = pat_import_def pat_const_def pat_call_def

lemma line_pattern_import: "line_pattern pat_import"
  by (simp add: line_pattern_def pat_import_def)
lemma line_pattern_const: "line_pattern pat_const"
  by (simp add: line_pattern_def pat_const_def)
lemma line_pattern_call: "line_pattern pat_call"
  by (simp add: line_pattern_def pat_call_def)

lemma patterns_not_suffixes:
  "\<not> suffix pat_import pat_const" "\<not> suffix pat_import pat_call"
  "\<not> suffix pat_const pat_import" "\<not> suffix pat_const pat_call"
  "\<not> suffix pat_call pat_import" "\<not> suffix pat_call pat_const"
  by (simp_all add: pat_defs suffix_to_prefix)

lemma patterns_distinct:
  "pat_import \<noteq> pat_const" "pat_import \<noteq> pat_call" "pat_const \<noteq> pat_call"
  by (simp_all add: pat_defs)

lemma line_pattern_patterns: "p \<in> set patterns \<Longrightarrow> line_pattern p"
  using line_pattern_import line_pattern_const line_pattern_call
  by (auto simp: patterns_def)

lemma transform_steps:
  "transform C = replace pat_call [] (replace pat_const [] (replace pat_import [] C))"
  by (simp add: transform_def)

lemma transform_absent:
  assumes "\<not> sublist pat_import C" and "\<not> sublist pat_const C" and "\<not> sublist pat_call C"
  shows "transform C = C"
proof -
  have ne: "pat_import \<noteq> []" "pat_const \<noteq> []" "pat_call \<noteq> []"
    by (simp_all add: pat_defs)
  have "replace pat_import [] C = C" using ne(1) assms(1) by (rule replace_absent)
  moreover have "replace pat_const [] C = C" using ne(2) assms(2) by (rule replace_absent)
  moreover have "replace pat_call [] C = C" using ne(3) assms(3) by (rule replace_absent)
  ultimately show ?thesis by (simp add: transform_steps)
qed

lemma subseq_replace_empty: "subseq (replace old [] s) s"
proof (induction s rule: length_induct)
  case (1 s)
  show ?case
  proof (cases s)
    case Nil
    then show ?thesis by simp
  next
    case (Cons c cs)
    have tail: "subseq (replace old [] cs) cs" using 1 Cons by simp
    show ?thesis
    proof (cases "old \<noteq> [] \<and> prefix old (c # cs)")
      case False
      with tail Cons show ?thesis by auto
    next
      case True
      let ?r = "drop (length old) (c # cs)"
      have "length ?r < length s" using True Cons by (cases old) auto
      with 1 have "subseq (replace old [] ?r) ?r" by blast
      moreover have "subseq ?r (c # cs)"
        by (metis append_take_drop_id list_emb_append2 subseq_order.order_refl)
      ultimately have "subseq (replace old [] ?r) (c # cs)"
        by (rule subseq_order.trans)
      with True Cons show ?thesis by simp
    qed
  qed
qed

lemma whole_line_only_filter:
  assumes "whole_line_only p s" and "lines_of t = filter Q (lines_of s)"
  shows "whole_line_only p t"
  using assms by (simp add: whole_line_only_def)

lemma absent_from_filtered:
  assumes "line_pattern p" and "whole_line_only p s"
    and "lines_of t = filter Q (lines_of s)" and "\<not> Q p"
  shows "\<not> sublist p t"
proof
  assume "sublist p t"
  then have "filter (suffix p) (lines_of t) \<noteq> []"
    using count_occ_lines[OF assms(1), of t] by (simp add: sublist_iff_count_occ)
  then obtain l where l: "l \<in> set (lines_of t)" and suf: "suffix p l"
    by (auto simp: filter_empty_conv)
  from l assms(3) have "l \<in> set (lines_of s)" and "Q l" by simp_all
  moreover from suf have "sublist p l" by (rule suffix_imp_sublist)
  ultimately have "l = p" using assms(2) by (simp add: whole_line_only_def)
  with \<open>Q l\<close> assms(4) show False by simp
qed

lemma lines_of_transform:
  assumes "whole_line_only pat_import C" and "whole_line_only pat_const C"
    and "whole_line_only pat_call C"
  shows "lines_of (transform C) = filter (\<lambda>l. l \<notin> set patterns) (lines_of C)"
proof -
  let ?t1 = "replace pat_import [] C"
  let ?t2 = "replace pat_const [] ?t1"
  have l1: "lines_of ?t1 = filter (\<lambda>l. l \<noteq> pat_import) (lines_of C)"
    using line_pattern_import assms(1) by (rule lines_of_replace_whole)
  have "whole_line_only pat_const ?t1"
    using assms(2) l1 by (rule whole_line_only_filter)
  with line_pattern_const
  have l2: "lines_of ?t2 = filter (\<lambda>l. l \<noteq> pat_const) (lines_of ?t1)"
    by (rule lines_of_replace_whole)
  have "whole_line_only pat_call ?t1"
    using assms(3) l1 by (rule whole_line_only_filter)
  then have "whole_line_only pat_call ?t2"
    using l2 by (rule whole_line_only_filter)
  with line_pattern_call
  have l3: "lines_of (replace pat_call [] ?t2) = filter (\<lambda>l. l \<noteq> pat_call) (lines_of ?t2)"
    by (rule lines_of_replace_whole)
  have "lines_of (transform C) = filter (\<lambda>l. l \<noteq> pat_call) (filter (\<lambda>l. l \<noteq> pat_const) (filter (\<lambda>l. l \<noteq> pat_import) (lines_of C)))"
    unfolding transform_steps l3 l2 l1 ..
  also have "\<dots> = filter (\<lambda>l. l \<notin> set patterns) (lines_of C)"
    by (auto simp: patterns_def intro: filter_cong)
  finally show ?thesis .
qed

lemma transform_removes_whole_lines:
  assumes "whole_line_only pat_import C" and "whole_line_only pat_const C"
    and "whole_line_only pat_call C" and "p \<in> set patterns"
  shows "\<not> sublist p (transform C)"
proof -
  have "line_pattern p" using assms(4) by (rule line_pattern_patterns)
  moreover have "whole_line_only p C" using assms by (auto simp: patterns_def)
  moreover note lines_of_transform[OF assms(1-3)]
  moreover have "\<not> p \<notin> set patterns" using assms(4) by simp
  ultimately show ?thesis by (rule absent_from_filtered)
qed

lemma transform_idem_whole_lines:
  assumes "whole_line_only pat_import C" and "whole_line_only pat_const C"
    and "whole_line_only pat_call C"
  shows "transform (transform C) = transform C"
proof (rule transform_absent)
  show "\<not> sublist pat_import (transform C)"
    using assms by (rule transform_removes_whole_lines) (simp add: patterns_def)
  show "\<not> sublist pat_const (transform C)"
    using assms by (rule transform_removes_whole_lines) (simp add: patterns_def)
  show "\<not> sublist pat_call (transform C)"
    using assms by (rule transform_removes_whole_lines) (simp add: patterns_def)
qed

lemma count_occ_whole_line:
  assumes "line_pattern p" and "whole_line_only p s"
  shows "count_occ p s = count_list (lines_of s) p"
proof -
  have "filter (suffix p) (lines_of s) = filter ((=) p) (lines_of s)"
  proof (rule filter_cong[OF refl])
    fix l assume "l \<in> set (lines_of s)"
    with assms(2) show "suffix p l \<longleftrightarrow> p = l"
      by (auto simp: whole_line_only_def dest: suffix_imp_sublist)
  qed
  then show ?thesis
    by (simp add: count_occ_lines[OF assms(1)] count_list_eq_length_filter)
qed

lemma length_without_three:
  assumes "a \<noteq> b" and "a \<noteq> c" and "b \<noteq> c"
  shows "length xs = length (filter (\<lambda>l. l \<notin> {a, b, c}) xs)
           + count_list xs a + count_list xs b + count_list xs c"
  using assms by (induction xs) auto

lemma count_occ_after_removal:
  assumes "line_pattern p" and "line_pattern q" and "\<not> suffix q p" and "whole_line_only p C"
  shows "count_occ q (replace p [] C) = count_occ q C"
proof -
  have "filter (\<lambda>l. l \<noteq> p \<and> suffix q l) (lines_of C) = filter (suffix q) (lines_of C)"
    using assms(3) by (intro filter_cong) auto
  then have "filter (suffix q) (filter (\<lambda>l. l \<noteq> p) (lines_of C)) = filter (suffix q) (lines_of C)"
    by simp
  then show ?thesis
    by (simp add: count_occ_lines[OF assms(2)] lines_of_replace_whole[OF assms(1,4)])
qed

section \<open>Facts about the concrete inputs\<close>

lemma remove_every_occurrence_replace:
  "line_pattern p \<Longrightarrow> remove_every_occurrence p s = replace p [] s"
  unfolding remove_every_occurrence_def by (rule delete_covered_replace)

lemma whole_lines_scenario_nested:
  "whole_line_only pat_import scenario_nested"
  "whole_line_only pat_const scenario_nested"
  "whole_line_only pat_call scenario_nested"
  by (simp_all add: whole_line_only_def scenario_nested_def pat_defs sublist_Cons_right)

lemma once_each_scenario_nested:
  "count_occ pat_import scenario_nested = 1"
  "count_occ pat_const scenario_nested = 1"
  "count_occ pat_call scenario_nested = 1"
  by (simp_all add: scenario_nested_def pat_defs)

lemma absent_no_match_input:
  "\<not> sublist pat_import no_match_input"
  "\<not> sublist pat_const no_match_input"
  "\<not> sublist pat_call no_match_input"
  by (simp_all add: no_match_input_def pat_defs sublist_Cons_right)

section \<open>Facts about the run\<close>

lemma universal_newlines_id: "CR \<notin> set s \<Longrightarrow> universal_newlines s = s"
  by (induction s) auto

lemma stdout_of_append: "stdout_of (es @ es') = stdout_of es @ stdout_of es'"
  by (induction es rule: stdout_of.induct) auto

lemma main_success:
  assumes "read_text w path = Inr text0"
    and "write_text w path (transform text0) = Inr w1"
  shows "main w = (print w1 ''updated index.ts'', None)"
  using assms by (simp add: main_def)

lemma write_text_effects:
  "write_text w p d = Inr w1 \<Longrightarrow> effects w1 = effects w @ [Wrote p d]"
  by (auto simp: write_text_def split: option.splits node.splits if_splits)

lemma getencoding_world_with: "getencoding (world_with n) = UTF8"
  by (simp add: getencoding_def world_with_def c_locale_host_def)

lemma decodable_inputs:
  "decodable UTF8 scenario_input" "decodable UTF8 scenario_nested"
  "decodable UTF8 no_match_input" "decodable UTF8 crlf_import"
  by (simp_all add: decodable_def byte_def scenario_input_def scenario_nested_def
      no_match_input_def crlf_import_def)

lemma read_text_file:
  "fs w path = Some (File c r wr) \<Longrightarrow>
   read_text w path =
     (if \<not> r then Inl PermissionError
      else if decodable (getencoding w) c then Inr (universal_newlines c)
      else Inl UnicodeDecodeError)"
  by (simp add: read_text_def decode_def)

lemma run_scenario:
  assumes "CR \<notin> set c" and "decodable UTF8 c"
  shows "main (world_with (File c True True)) =
         (\<lparr>fs = [path \<mapsto> File (transform c) True True],
           effects = [Wrote path (transform c), Printed ''updated index.ts\<newline>''],
           argv = [], environ = Map.empty, locale_encoding = c_locale_host\<rparr>, None)"
proof -
  have f: "fs (world_with (File c True True)) path = Some (File c True True)"
    by (simp add: world_with_def)
  have "read_text (world_with (File c True True)) path = Inr c"
    using read_text_file[OF f] assms
    by (simp add: getencoding_world_with universal_newlines_id)
  then show ?thesis
    by (simp add: main_def write_text_def print_def world_with_def)
qed

section \<open>The properties of the specification\<close>

subsection \<open>The transformation\<close>

text \<open>
  Claim C1. The transformation is three removals in the fixed order import line, assignment
  line, call line; each step removes every occurrence of its pattern (the scan of
  \<open>replace\<close> agrees with deleting every character that lies in an occurrence), and
  a step whose pattern is absent returns its input. \<open>replace\<close> is a total function:
  no step fails.
\<close>

theorem patch_is_three_ordered_removals:
  "transform C =
     remove_every_occurrence pat_call
       (remove_every_occurrence pat_const (remove_every_occurrence pat_import C))
   \<and> (\<forall>p \<in> set patterns. \<not> sublist p s \<longrightarrow> replace p [] s = s)"
proof
  show "transform C =
     remove_every_occurrence pat_call
       (remove_every_occurrence pat_const (remove_every_occurrence pat_import C))"
    by (simp add: transform_steps remove_every_occurrence_replace
        line_pattern_import line_pattern_const line_pattern_call)
next
  show "\<forall>p \<in> set patterns. \<not> sublist p s \<longrightarrow> replace p [] s = s"
  proof (intro ballI impI)
    fix p assume "p \<in> set patterns" and absent: "\<not> sublist p s"
    then have "line_pattern p" by (simp add: line_pattern_patterns)
    then have "p \<noteq> []" by (simp add: line_pattern_def)
    then show "replace p [] s = s" using absent by (rule replace_absent)
  qed
qed

text \<open>Claim C1, at the nested scenario and at a text without the call pattern.\<close>

theorem patch_is_three_ordered_removals_witness:
  "transform scenario_nested =
     remove_every_occurrence pat_call
       (remove_every_occurrence pat_const (remove_every_occurrence pat_import scenario_nested))
   \<and> pat_call \<in> set patterns \<and> \<not> sublist pat_call scenario_input
   \<and> replace pat_call [] scenario_input = scenario_input"
proof -
  have h1: "pat_call \<in> set patterns" by (simp add: patterns_def)
  have h2: "\<not> sublist pat_call scenario_input"
    by (simp add: scenario_input_def pat_call_def sublist_Cons_right)
  from patch_is_three_ordered_removals[of scenario_nested scenario_input] h1 h2
  show ?thesis by blast
qed

text \<open>
  Claim C2 as stated fails: a first run on \<open>nested_import\<close> removes the inner copy of
  the import line and thereby joins the outer one, which only a second run removes.
\<close>

theorem transform_not_idempotent:
  "transform (transform nested_import) \<noteq> transform nested_import"
  by (simp add: transform_def nested_import_def pat_defs)

text \<open>
  Claim C2, amended. For every content in which each of the three patterns occurs as whole
  lines only, transforming twice gives the same text as transforming once.
\<close>

theorem transform_idempotent_on_whole_lines:
  assumes "whole_line_only pat_import C" and "whole_line_only pat_const C"
    and "whole_line_only pat_call C"
  shows "transform (transform C) = transform C"
  using assms by (rule transform_idem_whole_lines)

text \<open>Claim C2, amended, at the nested scenario.\<close>

theorem transform_idempotent_on_whole_lines_witness:
  "whole_line_only pat_import scenario_nested \<and> whole_line_only pat_const scenario_nested
   \<and> whole_line_only pat_call scenario_nested
   \<and> transform (transform scenario_nested) = transform scenario_nested"
  using transform_idempotent_on_whole_lines[OF whole_lines_scenario_nested]
    whole_lines_scenario_nested by simp

text \<open>
  Claim C3 as stated fails: \<open>nested_import_once_each\<close> contains each pattern exactly
  once, and its transformed text is the import line itself.
\<close>

theorem once_each_yet_pattern_remains:
  "count_occ pat_import nested_import_once_each = 1
   \<and> count_occ pat_const nested_import_once_each = 1
   \<and> count_occ pat_call nested_import_once_each = 1
   \<and> sublist pat_import (transform nested_import_once_each)"
proof -
  have "transform nested_import_once_each = pat_import"
    by (simp add: transform_def nested_import_once_each_def pat_defs)
  moreover have "count_occ pat_import nested_import_once_each = 1"
    by (simp add: nested_import_once_each_def pat_defs)
  moreover have "count_occ pat_const nested_import_once_each = 1"
    by (simp add: nested_import_once_each_def pat_defs)
  moreover have "count_occ pat_call nested_import_once_each = 1"
    by (simp add: nested_import_once_each_def pat_defs)
  ultimately show ?thesis by simp
qed

text \<open>
  Claim C3, amended. For every content in which each of the three patterns occurs exactly
  once and as a whole line, the output contains none of the patterns, its lines are the
  input's lines other than the three pattern lines, in their order and with their content,
  and exactly three lines are gone.
\<close>

theorem selective_removal_of_whole_lines:
  assumes "count_occ pat_import C = 1" and "count_occ pat_const C = 1"
    and "count_occ pat_call C = 1"
    and "whole_line_only pat_import C" and "whole_line_only pat_const C"
    and "whole_line_only pat_call C"
  shows "\<not> sublist pat_import (transform C) \<and> \<not> sublist pat_const (transform C)
    \<and> \<not> sublist pat_call (transform C)
    \<and> lines_of (transform C) = filter (\<lambda>l. l \<notin> set patterns) (lines_of C)
    \<and> length (lines_of C) = length (lines_of (transform C)) + 3"
proof -
  have w: "whole_line_only pat_import C" "whole_line_only pat_const C" "whole_line_only pat_call C"
    using assms by simp_all
  have lines: "lines_of (transform C) = filter (\<lambda>l. l \<notin> set patterns) (lines_of C)"
    using w by (rule lines_of_transform)
  have "count_list (lines_of C) pat_import = 1"
    using count_occ_whole_line[OF line_pattern_import w(1)] assms(1) by simp
  moreover have "count_list (lines_of C) pat_const = 1"
    using count_occ_whole_line[OF line_pattern_const w(2)] assms(2) by simp
  moreover have "count_list (lines_of C) pat_call = 1"
    using count_occ_whole_line[OF line_pattern_call w(3)] assms(3) by simp
  moreover have "set patterns = {pat_import, pat_const, pat_call}"
    by (simp add: patterns_def)
  ultimately have "length (lines_of C) = length (lines_of (transform C)) + 3"
    using length_without_three[OF patterns_distinct, of "lines_of C"] lines by simp
  moreover have "\<not> sublist pat_import (transform C)"
    using w by (rule transform_removes_whole_lines) (simp add: patterns_def)
  moreover have "\<not> sublist pat_const (transform C)"
    using w by (rule transform_removes_whole_lines) (simp add: patterns_def)
  moreover have "\<not> sublist pat_call (transform C)"
    using w by (rule transform_removes_whole_lines) (simp add: patterns_def)
  ultimately show ?thesis using lines by simp
qed

text \<open>Claim C3, amended, at the nested scenario.\<close>

theorem selective_removal_of_whole_lines_witness:
  "count_occ pat_import scenario_nested = 1 \<and> count_occ pat_const scenario_nested = 1
   \<and> count_occ pat_call scenario_nested = 1
   \<and> whole_line_only pat_import scenario_nested \<and> whole_line_only pat_const scenario_nested
   \<and> whole_line_only pat_call scenario_nested
   \<and> \<not> sublist pat_import (transform scenario_nested)
   \<and> \<not> sublist pat_const (transform scenario_nested)
   \<and> \<not> sublist pat_call (transform scenario_nested)
   \<and> lines_of (transform scenario_nested)
       = filter (\<lambda>l. l \<notin> set patterns) (lines_of scenario_nested)
   \<and> length (lines_of scenario_nested) = length (lines_of (transform scenario_nested)) + 3"
  using selective_removal_of_whole_lines[OF once_each_scenario_nested whole_lines_scenario_nested]
    once_each_scenario_nested whole_lines_scenario_nested by simp

text \<open>
  Claim C4 as stated fails: the bytes of \<open>crlf_import\<close> contain none of the three
  patterns, yet the run leaves the file \<open>x\<close>: reading turns \<open>\r\n\<close> into
  \<open>\n\<close>, which completes the import pattern, and the line is removed.
\<close>

theorem crlf_file_rewritten:
  "\<not> sublist pat_import crlf_import \<and> \<not> sublist pat_const crlf_import
   \<and> \<not> sublist pat_call crlf_import
   \<and> fs (fst (main (world_with (File crlf_import True True)))) path
       = Some (File ''x'' True True)
   \<and> fs (fst (main (world_with (File crlf_import True True)))) path
       \<noteq> Some (File crlf_import True True)"
proof -
  have a: "\<not> sublist pat_import crlf_import" "\<not> sublist pat_const crlf_import"
    "\<not> sublist pat_call crlf_import"
    by (simp_all add: crlf_import_def pat_defs sublist_Cons_right)
  have u: "universal_newlines crlf_import
      = ''import { startSepoliaWatcher } from './sepoliaWatcher.js'\<newline>x''"
    by (simp add: crlf_import_def)
  have f: "fs (world_with (File crlf_import True True)) path = Some (File crlf_import True True)"
    by (simp add: world_with_def)
  have r: "read_text (world_with (File crlf_import True True)) path
      = Inr ''import { startSepoliaWatcher } from './sepoliaWatcher.js'\<newline>x''"
    using read_text_file[OF f] decodable_inputs(4)
    by (simp add: getencoding_world_with u)
  have t: "transform ''import { startSepoliaWatcher } from './sepoliaWatcher.js'\<newline>x'' = ''x''"
    by (simp add: transform_def pat_defs)
  have m: "fs (fst (main (world_with (File crlf_import True True)))) path
      = Some (File ''x'' True True)"
    by (simp add: main_def r t write_text_def f print_def)
  have "''x'' \<noteq> crlf_import" by (simp add: crlf_import_def)
  with a m show ?thesis by simp
qed

text \<open>
  Claim C4, amended. For every file content that contains none of the three patterns and no
  carriage return, the transformed text is the text read and the file the run leaves is
  byte for byte the input; when the file can be read, decoded and written, the run completes,
  writes that same content and prints \<open>updated index.ts\<close>.
\<close>

theorem unchanged_when_absent:
  assumes "\<not> sublist pat_import c" and "\<not> sublist pat_const c" and "\<not> sublist pat_call c"
    and "CR \<notin> set c" and "fs w path = Some (File c r wr)"
  shows "transform c = c
    \<and> fs (fst (main w)) path = Some (File c r wr)
    \<and> (r \<and> wr \<and> decodable (getencoding w) c \<longrightarrow>
         snd (main w) = None
         \<and> effects (fst (main w)) = effects w @ [Wrote path c, Printed ''updated index.ts\<newline>''])"
proof -
  have t: "transform c = c" using assms(1-3) by (rule transform_absent)
  have u: "universal_newlines c = c" using assms(4) by (rule universal_newlines_id)
  have rd: "read_text w path =
     (if \<not> r then Inl PermissionError
      else if decodable (getencoding w) c then Inr c
      else Inl UnicodeDecodeError)"
    using read_text_file[OF assms(5)] u by simp
  show ?thesis
    using assms(5) t
    by (auto simp: main_def rd write_text_def print_def)
qed

text \<open>Claim C4, amended, at the spec's file without a match.\<close>

theorem unchanged_when_absent_witness:
  "\<not> sublist pat_import no_match_input \<and> \<not> sublist pat_const no_match_input
   \<and> \<not> sublist pat_call no_match_input \<and> CR \<notin> set no_match_input
   \<and> transform no_match_input = no_match_input
   \<and> fs (fst (main (world_with (File no_match_input True True)))) path
       = Some (File no_match_input True True)
   \<and> snd (main (world_with (File no_match_input True True))) = None
   \<and> effects (fst (main (world_with (File no_match_input True True))))
       = [Wrote path no_match_input, Printed ''updated index.ts\<newline>'']"
proof -
  let ?w = "world_with (File no_match_input True True)"
  have cr: "CR \<notin> set no_match_input" by (simp add: no_match_input_def)
  have f: "fs ?w path = Some (File no_match_input True True)" by (simp add: world_with_def)
  have d: "decodable (getencoding ?w) no_match_input"
    using decodable_inputs(3) by (simp add: getencoding_world_with)
  have e: "effects ?w = []" by (simp add: world_with_def)
  from unchanged_when_absent[OF absent_no_match_input cr f] d e absent_no_match_input cr
  show ?thesis by simp
qed

text \<open>
  Claim C5 as stated fails: \<open>split_import\<close> has no occurrence of the import line, and
  removing the assignment line from it leaves one.
\<close>

theorem removal_creates_other_pattern:
  "count_occ pat_import split_import = 0
   \<and> count_occ pat_import (replace pat_const [] split_import) = 1"
  by (simp add: split_import_def pat_defs)

text \<open>
  Claim C5, amended. For every content in which the removed pattern occurs as whole lines
  only, removing it leaves the number of occurrences of each of the other two patterns
  unchanged, wherever the lines stand in the file.
\<close>

theorem whole_line_removal_keeps_other_patterns:
  assumes "p \<in> set patterns" and "q \<in> set patterns" and "p \<noteq> q"
    and "whole_line_only p C"
  shows "count_occ q (replace p [] C) = count_occ q C"
proof -
  have "line_pattern p" and "line_pattern q"
    using assms(1,2) by (simp_all add: line_pattern_patterns)
  moreover have "\<not> suffix q p"
    using assms(1-3) patterns_not_suffixes by (auto simp: patterns_def)
  ultimately show ?thesis using assms(4) by (rule count_occ_after_removal)
qed

text \<open>Claim C5, amended: removing the assignment line from the nested scenario.\<close>

theorem whole_line_removal_keeps_other_patterns_witness:
  "pat_const \<in> set patterns \<and> pat_call \<in> set patterns \<and> pat_const \<noteq> pat_call
   \<and> whole_line_only pat_const scenario_nested
   \<and> count_occ pat_call (replace pat_const [] scenario_nested) = count_occ pat_call scenario_nested"
proof -
  have h: "pat_const \<in> set patterns" "pat_call \<in> set patterns"
    by (simp_all add: patterns_def)
  from whole_line_removal_keeps_other_patterns[OF h patterns_distinct(3) whole_lines_scenario_nested(2)]
  show ?thesis using h patterns_distinct(3) whole_lines_scenario_nested(2) by simp
qed

text \<open>
  Claim C9. The transformed text is a subsequence of the input (characters are only
  deleted, never inserted or reordered), so it is no longer than the input.
\<close>

theorem transform_only_deletes:
  "subseq (transform C) C \<and> length (transform C) \<le> length C"
proof -
  have "subseq (replace pat_import [] C) C" by (rule subseq_replace_empty)
  moreover have "subseq (replace pat_const [] (replace pat_import [] C)) (replace pat_import [] C)"
    by (rule subseq_replace_empty)
  moreover have "subseq (transform C) (replace pat_const [] (replace pat_import [] C))"
    unfolding transform_steps by (rule subseq_replace_empty)
  ultimately have "subseq (transform C) C"
    by (meson subseq_order.trans)
  then show ?thesis by (simp add: list_emb_length)
qed

subsection \<open>The run\<close>

text \<open>
  Claim C6 as stated fails: in the scenario's file the call line is indented by two spaces,
  the third pattern starts with four, so the call line stays and the output is not the
  three lines the spec expects.
\<close>

theorem scenario_output_differs:
  "transform scenario_input \<noteq> scenario_expected
   \<and> fs (fst (main (world_with (File scenario_input True True)))) path
       \<noteq> Some (File scenario_expected True True)"
proof -
  have t: "transform scenario_input = scenario_actual"
    by (simp add: transform_def scenario_input_def scenario_actual_def pat_defs)
  have d: "scenario_actual \<noteq> scenario_expected"
    by (simp add: scenario_actual_def scenario_expected_def)
  have "CR \<notin> set scenario_input" by (simp add: scenario_input_def)
  then show ?thesis using t d by (simp add: run_scenario decodable_inputs)
qed

text \<open>
  Claim C6, amended. On the scenario's six-line file the run removes the import line and
  the assignment line, keeps the call line (four lines remain) and prints
  \<open>updated index.ts\<close>; on the same file with the call line indented by four spaces
  the run leaves exactly the three lines \<open>function main() {\<close>, \<open>  doWork()\<close>,
  \<open>}\<close> and prints \<open>updated index.ts\<close>.
\<close>

theorem scenario_run:
  "fs (fst (main (world_with (File scenario_input True True)))) path
      = Some (File scenario_actual True True)
   \<and> stdout_of (effects (fst (main (world_with (File scenario_input True True)))))
      = ''updated index.ts\<newline>''
   \<and> snd (main (world_with (File scenario_input True True))) = None
   \<and> fs (fst (main (world_with (File scenario_nested True True)))) path
      = Some (File scenario_expected True True)
   \<and> stdout_of (effects (fst (main (world_with (File scenario_nested True True)))))
      = ''updated index.ts\<newline>''
   \<and> snd (main (world_with (File scenario_nested True True))) = None"
proof -
  have t1: "transform scenario_input = scenario_actual"
    by (simp add: transform_def scenario_input_def scenario_actual_def pat_defs)
  have t2: "transform scenario_nested = scenario_expected"
    by (simp add: transform_def scenario_nested_def scenario_expected_def pat_defs)
  have "CR \<notin> set scenario_input" and "CR \<notin> set scenario_nested"
    by (simp_all add: scenario_input_def scenario_nested_def)
  then show ?thesis using t1 t2 by (simp add: run_scenario decodable_inputs)
qed

text \<open>
  Claim C7. In every run whose write completes, the run's effects are the write followed
  by the one line \<open>updated index.ts\<close>: nothing is printed before the write, exactly
  that line after it, whatever the content of the file.
\<close>

theorem confirmation_after_write:
  assumes "read_text w path = Inr text0"
    and "write_text w path (transform text0) = Inr w1"
  shows "snd (main w) = None
    \<and> effects (fst (main w))
        = effects w @ [Wrote path (transform text0), Printed ''updated index.ts\<newline>'']
    \<and> stdout_of (effects (fst (main w))) = stdout_of (effects w) @ ''updated index.ts\<newline>''
    \<and> stdout_of (effects w1) = stdout_of (effects w)"
proof -
  have m: "main w = (print w1 ''updated index.ts'', None)"
    using assms by (rule main_success)
  have e: "effects w1 = effects w @ [Wrote path (transform text0)]"
    using assms(2) by (rule write_text_effects)
  show ?thesis by (simp add: m e print_def stdout_of_append)
qed

text \<open>Claim C7 at a file without any of the patterns.\<close>

theorem confirmation_after_write_witness:
  "read_text (world_with (File no_match_input True True)) path = Inr no_match_input
   \<and> snd (main (world_with (File no_match_input True True))) = None
   \<and> effects (fst (main (world_with (File no_match_input True True))))
       = [Wrote path no_match_input, Printed ''updated index.ts\<newline>'']
   \<and> stdout_of (effects (fst (main (world_with (File no_match_input True True)))))
       = ''updated index.ts\<newline>''"
proof -
  let ?w = "world_with (File no_match_input True True)"
  let ?w1 = "?w\<lparr>fs := (fs ?w)(path \<mapsto> File no_match_input True True),
                 effects := effects ?w @ [Wrote path no_match_input]\<rparr>"
  have t: "transform no_match_input = no_match_input"
    using absent_no_match_input by (rule transform_absent)
  have cr: "CR \<notin> set no_match_input" by (simp add: no_match_input_def)
  have f: "fs ?w path = Some (File no_match_input True True)" by (simp add: world_with_def)
  have r: "read_text ?w path = Inr no_match_input"
    using read_text_file[OF f] decodable_inputs(3)
    by (simp add: getencoding_world_with universal_newlines_id[OF cr])
  have wr: "write_text ?w path (transform no_match_input) = Inr ?w1"
    by (simp add: t write_text_def world_with_def)
  from confirmation_after_write[OF r wr] r show ?thesis
    by (simp add: t world_with_def)
qed

text \<open>
  Claim C8. A missing, unreadable or unwritable target (or a directory) ends the run with the
  error of the failing call, as it is; the world is then as before the run: the file keeps its
  content and nothing is printed. (A readable file that does not decode fails in the read,
  before its write permission matters.) The only write a run makes carries the fully
  transformed text, so all three replacements precede it.
\<close>

theorem filesystem_errors_propagate:
  "(fs w path = None \<longrightarrow> main w = (w, Some FileNotFoundError))
   \<and> (fs w path = Some Dir \<longrightarrow> main w = (w, Some IsADirectoryError))
   \<and> (fs w path = Some (File c False wr) \<longrightarrow> main w = (w, Some PermissionError))
   \<and> (fs w path = Some (File c True False) \<longrightarrow>
        main w = (w, Some (if decodable (getencoding w) c then PermissionError
                           else UnicodeDecodeError)))
   \<and> (\<forall>e. read_text w path = Inl e \<longrightarrow> main w = (w, Some e))
   \<and> (\<forall>text0 e. read_text w path = Inr text0 \<longrightarrow>
          write_text w path (transform text0) = Inl e \<longrightarrow> main w = (w, Some e))
   \<and> (\<forall>p d. Wrote p d \<in> set (effects (fst (main w))) \<longrightarrow>
          Wrote p d \<in> set (effects w)
          \<or> (p = path \<and> (\<exists>text0. read_text w path = Inr text0 \<and> d = transform text0)))"
proof (intro conjI allI impI)
  fix p d assume a: "Wrote p d \<in> set (effects (fst (main w)))"
  show "Wrote p d \<in> set (effects w)
          \<or> (p = path \<and> (\<exists>text0. read_text w path = Inr text0 \<and> d = transform text0))"
  proof (cases "read_text w path")
    case (Inl e)
    with a show ?thesis by (simp add: main_def)
  next
    case (Inr text0)
    show ?thesis
    proof (cases "write_text w path (transform text0)")
      case (Inl e)
      with Inr a show ?thesis by (simp add: main_def)
    next
      case w1: (Inr w1)
      have "effects w1 = effects w @ [Wrote path (transform text0)]"
        using w1 by (rule write_text_effects)
      with Inr w1 a show ?thesis by (auto simp: main_def print_def)
    qed
  qed
qed (auto simp: main_def read_text_def decode_def write_text_def
      split: option.splits node.splits if_splits)

text \<open>Claim C8 at a missing file, an unreadable one, an unwritable one and a directory.\<close>

theorem filesystem_errors_propagate_witness:
  "main empty_world = (empty_world, Some FileNotFoundError)
   \<and> main (world_with (File scenario_input False True))
     = (world_with (File scenario_input False True), Some PermissionError)
   \<and> main (world_with (File scenario_input True False))
     = (world_with (File scenario_input True False), Some PermissionError)
   \<and> main (world_with Dir) = (world_with Dir, Some IsADirectoryError)"
proof -
  have h0: "fs empty_world path = None" by (simp add: empty_world_def)
  have h1: "fs (world_with (File scenario_input False True)) path = Some (File scenario_input False True)"
    by (simp add: world_with_def)
  have h2: "fs (world_with (File scenario_input True False)) path = Some (File scenario_input True False)"
    by (simp add: world_with_def)
  have d2: "decodable (getencoding (world_with (File scenario_input True False))) scenario_input"
    using decodable_inputs(1) by (simp add: getencoding_world_with)
  have h3: "fs (world_with Dir) path = Some Dir"
    by (simp add: world_with_def)
  from filesystem_errors_propagate[of empty_world] h0
  have "main empty_world = (empty_world, Some FileNotFoundError)" by blast
  moreover from filesystem_errors_propagate[of "world_with (File scenario_input False True)" scenario_input True] h1
  have "main (world_with (File scenario_input False True))
     = (world_with (File scenario_input False True), Some PermissionError)" by blast
  moreover from filesystem_errors_propagate[of "world_with (File scenario_input True False)" scenario_input] h2 d2
  have "main (world_with (File scenario_input True False))
     = (world_with (File scenario_input True False), Some PermissionError)" by simp
  moreover from filesystem_errors_propagate[of "world_with Dir"] h3
  have "main (world_with Dir) = (world_with Dir, Some IsADirectoryError)" by blast
  ultimately show ?thesis by simp
qed




end
